theory Spec2Isabelle
  imports
    Main
    "HOL-Library.Multiset"
    "HOL-Library.Product_Lexorder"
    "HOL-Library.Sublist"
begin

text \<open>
  The layout reconstruction of the PDF conversion page: \<^verbatim>\<open>groupIntoLines\<close>,
  \<^verbatim>\<open>detectColumns\<close>, \<^verbatim>\<open>assignCol\<close>, \<^verbatim>\<open>convertToWord\<close> and \<^verbatim>\<open>convertToExcel\<close>
  (lines 403 to 536 of the page's source). Reading the PDF and serialising the document
  and the workbook belong to libraries: the conversions are modelled from the pages that
  \<^verbatim>\<open>extractTextItems\<close> returns up to the list of paragraphs handed to the document
  and the list of sheets of the workbook that is written. Of the writer of the workbook
  the model keeps the one check that decides whether the table conversion returns: a
  workbook without sheets is refused.
\<close>

section \<open>Data model\<close>

text \<open>
  The conversion page works on positioned text fragments. Every coordinate is the result
  of \<^verbatim>\<open>Math.round\<close>, so the numbers are integers; they are modelled as \<^typ>\<open>int\<close>.
  Strings are lists of code units.
\<close>

record TextItem =
  str :: string
  x :: int
  y :: int
  width :: int
  height :: int

text \<open>
  Reading a property of \<^verbatim>\<open>undefined\<close> throws a \<^verbatim>\<open>TypeError\<close>, and writing a workbook
  that has no sheet throws the error "Workbook is empty". A loop body that may throw
  returns a sum, and \<open>forEach\<close> is the \<^verbatim>\<open>for (const a of as)\<close> loop over such a body:
  the first exception leaves the loop.
\<close>

datatype error = TypeError | WorkbookIsEmpty

fun forEach :: "('s \<Rightarrow> 'a \<Rightarrow> error + 's) \<Rightarrow> 's \<Rightarrow> 'a list \<Rightarrow> error + 's" where
  "forEach body s [] = Inr s"
| "forEach body s (a # as) =
     (case body s a of Inl e \<Rightarrow> Inl e | Inr s' \<Rightarrow> forEach body s' as)"

section \<open>Sorting with a comparator\<close>

text \<open>
  \<^verbatim>\<open>Array.prototype.sort\<close> is stable, and for a consistent comparator its result is the
  one stable sorted arrangement of the array, whichever algorithm the engine runs. The
  model is the stable insertion sort: an element goes in front of the first element it
  does not compare greater than, and elements are inserted from the right.
\<close>

fun insertBy :: "('a \<Rightarrow> 'a \<Rightarrow> int) \<Rightarrow> 'a \<Rightarrow> 'a list \<Rightarrow> 'a list" where
  "insertBy cmp a [] = [a]"
| "insertBy cmp a (b # bs) =
     (if cmp a b \<le> 0 then a # b # bs else b # insertBy cmp a bs)"

definition sortBy :: "('a \<Rightarrow> 'a \<Rightarrow> int) \<Rightarrow> 'a list \<Rightarrow> 'a list" where
  "sortBy cmp as = foldr (insertBy cmp) as []"

text \<open>\<^verbatim>\<open>(a, b) => a.y - b.y || a.x - b.x\<close>: the difference of the ys unless it is zero.\<close>

definition byYThenX :: "TextItem \<Rightarrow> TextItem \<Rightarrow> int" where
  "byYThenX a b = (if y a - y b \<noteq> 0 then y a - y b else x a - x b)"

text \<open>\<^verbatim>\<open>(a, b) => a.x - b.x\<close>\<close>

definition byX :: "TextItem \<Rightarrow> TextItem \<Rightarrow> int" where
  "byX a b = x a - x b"

section \<open>Line grouping\<close>

text \<open>
  One round of the loop of \<^verbatim>\<open>groupIntoLines\<close>. \<^verbatim>\<open>lastLine\<close> is \<^verbatim>\<open>undefined\<close> (falsy)
  when there is no line yet; an array is truthy even when empty, and then
  \<^verbatim>\<open>lastLine[0].y\<close> would throw.
\<close>

definition pushItem :: "int \<Rightarrow> TextItem list list \<Rightarrow> TextItem \<Rightarrow> error + TextItem list list" where
  "pushItem tolerance lines item =
     (if lines = [] then Inr (lines @ [[item]])
      else (case last lines of
              [] \<Rightarrow> Inl TypeError
            | f0 # _ \<Rightarrow>
                if \<bar>y item - y f0\<bar> \<le> tolerance
                then Inr (butlast lines @ [last lines @ [item]])
                else Inr (lines @ [[item]])))"

definition groupIntoLines :: "TextItem list \<Rightarrow> int \<Rightarrow> error + TextItem list list" where
  "groupIntoLines items tolerance =
     (case forEach (pushItem tolerance) [] (sortBy byYThenX items) of
        Inl e \<Rightarrow> Inl e
      | Inr lines \<Rightarrow> Inr (map (sortBy byX) lines))"

text \<open>
  The grouping as the specification words it: the fragments in y-then-x order are walked
  with the line being built at hand, \<open>ref\<close> its first fragment and \<open>cur\<close> the fragments
  appended to it so far. A fragment whose y is further than the tolerance from the y of
  \<open>ref\<close> closes the line and opens the next one; any other fragment is appended.
\<close>

fun spec_walk :: "int \<Rightarrow> TextItem \<Rightarrow> TextItem list \<Rightarrow> TextItem list \<Rightarrow> TextItem list list" where
  "spec_walk tolerance ref cur [] = [ref # cur]"
| "spec_walk tolerance ref cur (f # fs) =
     (if tolerance < \<bar>y f - y ref\<bar>
      then (ref # cur) # spec_walk tolerance f [] fs
      else spec_walk tolerance ref (cur @ [f]) fs)"

fun spec_lines :: "int \<Rightarrow> TextItem list \<Rightarrow> TextItem list list" where
  "spec_lines tolerance [] = []"
| "spec_lines tolerance (f # fs) = spec_walk tolerance f [] fs"

definition yThenX :: "TextItem \<Rightarrow> int \<times> int" where
  "yThenX i = (y i, x i)"

definition spec_groupIntoLines :: "TextItem list \<Rightarrow> int \<Rightarrow> TextItem list list" where
  "spec_groupIntoLines items tolerance =
     map (sort_key x) (spec_lines tolerance (sort_key yThenX items))"

text \<open>A fragment with the given text, x and y, for the examples.\<close>

definition mk :: "string \<Rightarrow> int \<Rightarrow> int \<Rightarrow> TextItem" where
  "mk s a b = \<lparr>str = s, x = a, y = b, width = 0, height = 0\<rparr>"

section \<open>Column detection\<close>

text \<open>
  \<^verbatim>\<open>[...new Set(xPositions)]\<close>: the distinct values in the order in which they were
  first inserted.
\<close>

definition newSet :: "int list \<Rightarrow> int list" where
  "newSet vs = foldl (\<lambda>seen v. if v \<in> set seen then seen else seen @ [v]) [] vs"

text \<open>\<^verbatim>\<open>(a, b) => a - b\<close>\<close>

definition byNumber :: "int \<Rightarrow> int \<Rightarrow> int" where
  "byNumber a b = a - b"

definition pushCol :: "int list \<Rightarrow> int \<Rightarrow> int list" where
  "pushCol cols v = (if cols = [] \<or> 20 < v - last cols then cols @ [v] else cols)"

definition detectColumns :: "TextItem list list \<Rightarrow> int list" where
  "detectColumns lines =
     (let xPositions = concat (map (map x) lines);
          sortedXs = sortBy byNumber (newSet xPositions)
      in foldl pushCol [] sortedXs)"

text \<open>
  Column detection as the specification words it: the distinct x positions in ascending
  order are walked with the most recently accepted column at hand; a candidate further
  than 20 units to its right is accepted as it is and becomes the column at hand, any
  other candidate is dropped.
\<close>

fun spec_accept :: "int \<Rightarrow> int list \<Rightarrow> int list" where
  "spec_accept c [] = []"
| "spec_accept c (v # vs) =
     (if 20 < v - c then v # spec_accept v vs else spec_accept c vs)"

definition spec_columns :: "int set \<Rightarrow> int list" where
  "spec_columns X =
     (case sorted_list_of_set X of [] \<Rightarrow> [] | v # vs \<Rightarrow> v # spec_accept v vs)"

definition xsOf :: "TextItem list list \<Rightarrow> int set" where
  "xsOf lines = (\<Union>l\<in>set lines. x ` set l)"

section \<open>Nearest column\<close>

text \<open>
  \<^verbatim>\<open>bestDist\<close> starts at \<^verbatim>\<open>Infinity\<close>, which is \<open>None\<close> here; every distance is
  less than it.
\<close>

definition closer :: "int \<Rightarrow> int option \<Rightarrow> bool" where
  "closer d bestDist = (case bestDist of None \<Rightarrow> True | Some b \<Rightarrow> d < b)"

definition nearer :: "int \<Rightarrow> int list \<Rightarrow> nat \<times> int option \<Rightarrow> nat \<Rightarrow> nat \<times> int option" where
  "nearer v cols st i =
     (let d = \<bar>v - cols ! i\<bar>
      in if closer d (snd st) then (i, Some d) else st)"

definition assignCol :: "int \<Rightarrow> int list \<Rightarrow> nat" where
  "assignCol v cols = fst (foldl (nearer v cols) (0, None) [0..<length cols])"

section \<open>Strings\<close>

text \<open>
  A \<^typ>\<open>char\<close> stands for a code unit below 256. \<^verbatim>\<open>trim\<close> removes white space and
  line terminators from both ends; below 256 these are the code units 9 to 13, 32 and 160.
\<close>

definition isWhiteSpace :: "char \<Rightarrow> bool" where
  "isWhiteSpace c = (of_char c \<in> set [9, 10, 11, 12, 13, 32, 160 :: nat])"

definition trim :: "string \<Rightarrow> string" where
  "trim s = rev (dropWhile isWhiteSpace (rev (dropWhile isWhiteSpace s)))"

fun join :: "string \<Rightarrow> string list \<Rightarrow> string" where
  "join sep [] = []"
| "join sep [s] = s"
| "join sep (s # t # ts) = s @ sep @ join sep (t # ts)"

text \<open>
  \<^verbatim>\<open>s.replace(pat, rep)\<close> with a string pattern: the first occurrence of the pattern,
  wherever it is, is replaced and the rest of the string is left as it is.
\<close>

fun replaceFirst :: "string \<Rightarrow> string \<Rightarrow> string \<Rightarrow> string" where
  "replaceFirst pat rep [] = (if pat = [] then rep else [])"
| "replaceFirst pat rep (c # cs) =
     (if prefix pat (c # cs) then rep @ drop (length pat) (c # cs)
      else c # replaceFirst pat rep cs)"

text \<open>The decimal numeral of a page number, as the template literal prints it.\<close>

definition digit :: "nat \<Rightarrow> char" where
  "digit d = ''0123456789'' ! d"

fun decimal :: "nat \<Rightarrow> string" where
  "decimal n = (if n < 10 then [digit n] else decimal (n div 10) @ [digit (n mod 10)])"

declare decimal.simps [simp del]

section \<open>Table conversion\<close>

text \<open>
  Writing \<^verbatim>\<open>row[col]\<close>: inside the row the cell is replaced; at or past its end JavaScript
  extends the array. Reading a cell past the end gives \<^verbatim>\<open>undefined\<close>, which is falsy
  like the empty string.
\<close>

definition setCell :: "string list \<Rightarrow> nat \<Rightarrow> string \<Rightarrow> string list" where
  "setCell row col v =
     (if col < length row then row[col := v]
      else row @ replicate (col - length row) [] @ [v])"

definition putItem :: "int list \<Rightarrow> string list \<Rightarrow> TextItem \<Rightarrow> string list" where
  "putItem cols row item =
     (let col = assignCol (x item) cols
      in setCell row col
           (if col < length row \<and> row ! col \<noteq> []
            then row ! col @ '' '' @ str item
            else str item))"

definition buildRow :: "int list \<Rightarrow> TextItem list \<Rightarrow> string list" where
  "buildRow cols line = foldl (putItem cols) (replicate (length cols) []) line"

definition pushRow :: "int list \<Rightarrow> string list list \<Rightarrow> TextItem list \<Rightarrow> string list list" where
  "pushRow cols grid line =
     (let row = buildRow cols line
      in if list_ex (\<lambda>c. trim c \<noteq> []) row then grid @ [row] else grid)"

record Sheet =
  sheetName :: string
  rows :: "string list list"
  colWidths :: "nat list"

definition cellLength :: "string list \<Rightarrow> nat \<Rightarrow> nat" where
  "cellLength r ci = (if ci < length r then length (r ! ci) else 0)"

definition autoWidths :: "int list \<Rightarrow> string list list \<Rightarrow> nat list" where
  "autoWidths cols grid =
     map (\<lambda>ci. min 50 (foldl max 10 (map (\<lambda>r. cellLength r ci) grid))) [0..<length cols]"

text \<open>
  The sheet of a page that has lines: its columns, its grid without the blank rows, the
  column widths and the name.
\<close>

definition sheetOf :: "TextItem list list \<Rightarrow> nat \<Rightarrow> TextItem list list \<Rightarrow> Sheet" where
  "sheetOf pages p lines =
     (let cols = detectColumns lines;
          grid = foldl (pushRow cols) [] lines
      in \<lparr>sheetName = (if 1 < length pages then ''Page '' @ decimal (p + 1) else ''Sheet1''),
          rows = grid,
          colWidths = autoWidths cols grid\<rparr>)"

text \<open>
  One round of the page loop of \<^verbatim>\<open>convertToExcel\<close>; the workbook is the list of the
  sheets appended so far, and a page without lines is passed over.
\<close>

definition excelPage :: "TextItem list list \<Rightarrow> Sheet list \<Rightarrow> nat \<Rightarrow> error + Sheet list" where
  "excelPage pages wb p =
     (case groupIntoLines (pages ! p) 8 of
        Inl e \<Rightarrow> Inl e
      | Inr lines \<Rightarrow>
          if lines = [] then Inr wb else Inr (wb @ [sheetOf pages p lines]))"

text \<open>
  \<^verbatim>\<open>XLSX.write(wb, ...)\<close>, after the loop: the writer throws "Workbook is empty" when no
  sheet was appended, and serialises the sheets otherwise. The exception leaves
  \<^verbatim>\<open>convertToExcel\<close>; its caller catches it and reports that the conversion failed.
\<close>

definition xlsxWrite :: "Sheet list \<Rightarrow> error + Sheet list" where
  "xlsxWrite wb = (if wb = [] then Inl WorkbookIsEmpty else Inr wb)"

definition convertToExcel :: "TextItem list list \<Rightarrow> error + Sheet list" where
  "convertToExcel pages =
     (case forEach (excelPage pages) [] [0..<length pages] of
        Inl e \<Rightarrow> Inl e
      | Inr wb \<Rightarrow> xlsxWrite wb)"

section \<open>Flow conversion\<close>

datatype HeadingLevel = HEADING_1 | HEADING_2

text \<open>
  The three shapes of paragraph the page builds: a heading with its text, a run of text
  with its bold flag and size, and the empty paragraph with a page break before it.
\<close>

datatype Paragraph =
    Heading string HeadingLevel
  | Run string bool nat
  | PageBreak

definition pushLine :: "Paragraph list \<Rightarrow> TextItem list \<Rightarrow> Paragraph list" where
  "pushLine doc line =
     (let joined = trim (join '' '' (map str line))
      in if joined = [] then doc
         else
           (let isShort = (length joined < 60 \<and> length line \<le> 3)
            in doc @ [Run joined isShort (if isShort then 24 else 20)]))"

definition wordPage :: "TextItem list list \<Rightarrow> Paragraph list \<Rightarrow> nat \<Rightarrow> error + Paragraph list" where
  "wordPage pages doc p =
     (let titled = (if 1 < length pages
                    then doc @ [Heading (''Page '' @ decimal (p + 1)) HEADING_2]
                    else doc)
      in case groupIntoLines (pages ! p) 5 of
           Inl e \<Rightarrow> Inl e
         | Inr lines \<Rightarrow>
             (let filled = foldl pushLine titled lines
              in Inr (if int p < int (length pages) - 1 then filled @ [PageBreak] else filled)))"

definition convertToWord :: "string \<Rightarrow> TextItem list list \<Rightarrow> error + Paragraph list" where
  "convertToWord fileName pages =
     forEach (wordPage pages) [Heading (replaceFirst ''.pdf'' [] fileName) HEADING_1]
       [0..<length pages]"

section \<open>Sorting lemmas\<close>

lemma insertBy_insort_key:
  assumes "\<And>a b. (cmp a b \<le> 0) = (key a \<le> key b)"
  shows "insertBy cmp a bs = insort_key key a bs"
  by (induction bs) (simp_all add: assms)

lemma sortBy_sort_key:
  assumes "\<And>a b. (cmp a b \<le> 0) = (key a \<le> key b)"
  shows "sortBy cmp as = sort_key key as"
  unfolding sortBy_def sort_key_def
  by (induction as) (simp_all add: insertBy_insort_key [OF assms])

lemma sortBy_byYThenX: "sortBy byYThenX items = sort_key yThenX items"
  by (rule sortBy_sort_key) (auto simp: byYThenX_def yThenX_def)

lemma sortBy_byX: "sortBy byX line = sort_key x line"
  by (rule sortBy_sort_key) (simp add: byX_def)

section \<open>The loop of groupIntoLines never throws\<close>

lemma forEach_pushItem:
  assumes "lines \<noteq> []" and "last lines = ref # cur"
  shows "forEach (pushItem tolerance) lines fs
           = Inr (butlast lines @ spec_walk tolerance ref cur fs)"
  using assms
proof (induction fs arbitrary: lines ref cur)
  case Nil
  then show ?case
    by (metis append_butlast_last_id forEach.simps(1) spec_walk.simps(1))
next
  case (Cons f fs)
  show ?case
  proof (cases "tolerance < \<bar>y f - y ref\<bar>")
    case True
    then have step: "pushItem tolerance lines f = Inr (lines @ [[f]])"
      using Cons.prems by (simp add: pushItem_def)
    have "forEach (pushItem tolerance) (lines @ [[f]]) fs
            = Inr (butlast (lines @ [[f]]) @ spec_walk tolerance f [] fs)"
      by (rule Cons.IH) simp_all
    moreover have "lines = butlast lines @ [ref # cur]"
      using Cons.prems by (metis append_butlast_last_id)
    ultimately show ?thesis
      using True step by (simp add: butlast_append)
  next
    case False
    then have step: "pushItem tolerance lines f = Inr (butlast lines @ [last lines @ [f]])"
      using Cons.prems by (simp add: pushItem_def)
    have "forEach (pushItem tolerance) (butlast lines @ [last lines @ [f]]) fs
            = Inr (butlast (butlast lines @ [last lines @ [f]])
                     @ spec_walk tolerance ref (cur @ [f]) fs)"
      by (rule Cons.IH) (simp_all add: Cons.prems)
    then show ?thesis
      using False step by simp
  qed
qed

lemma forEach_pushItem_start:
  "forEach (pushItem tolerance) [] fs = Inr (spec_lines tolerance fs)"
proof (cases fs)
  case Nil
  then show ?thesis by simp
next
  case (Cons f fs')
  have "forEach (pushItem tolerance) [[f]] fs' = Inr (butlast [[f]] @ spec_walk tolerance f [] fs')"
    by (rule forEach_pushItem) simp_all
  then show ?thesis
    using Cons by (simp add: pushItem_def)
qed

lemma groupIntoLines_total:
  "groupIntoLines items tolerance = Inr (spec_groupIntoLines items tolerance)"
  by (simp add: groupIntoLines_def spec_groupIntoLines_def forEach_pushItem_start
      sortBy_byYThenX sortBy_byX cong: map_cong)

section \<open>Shape of the grouped lines\<close>

lemma concat_spec_walk: "concat (spec_walk tolerance ref cur fs) = ref # cur @ fs"
  by (induction fs arbitrary: ref cur) simp_all

lemma concat_spec_lines: "concat (spec_lines tolerance fs) = fs"
  by (cases fs) (simp_all add: concat_spec_walk)

lemma spec_walk_nonempty: "[] \<notin> set (spec_walk tolerance ref cur fs)"
  by (induction fs arbitrary: ref cur) simp_all

lemma spec_lines_nonempty: "[] \<notin> set (spec_lines tolerance fs)"
  by (cases fs) (simp_all add: spec_walk_nonempty)

lemma spec_walk_not_Nil: "spec_walk tolerance ref cur fs \<noteq> []"
  by (induction fs arbitrary: ref cur) simp_all

lemma spec_lines_Nil_iff: "spec_lines tolerance fs = [] \<longleftrightarrow> fs = []"
  by (cases fs) (simp_all add: spec_walk_not_Nil)

lemma spec_walk_within:
  assumes "\<forall>f\<in>set cur. \<bar>y f - y ref\<bar> \<le> tolerance"
    and "l \<in> set (spec_walk tolerance ref cur fs)"
  shows "\<forall>f\<in>set (tl l). \<bar>y f - y (hd l)\<bar> \<le> tolerance"
  using assms
proof (induction fs arbitrary: ref cur)
  case Nil
  then show ?case by simp
next
  case (Cons f fs)
  show ?case
  proof (cases "tolerance < \<bar>y f - y ref\<bar>")
    case True
    with Cons.prems(2) have "l = ref # cur \<or> l \<in> set (spec_walk tolerance f [] fs)"
      by simp
    then show ?thesis
    proof
      assume "l = ref # cur"
      then show ?thesis using Cons.prems(1) by simp
    next
      assume "l \<in> set (spec_walk tolerance f [] fs)"
      then show ?thesis by (intro Cons.IH [of "[]" f]) simp_all
    qed
  next
    case False
    with Cons.prems(2) have "l \<in> set (spec_walk tolerance ref (cur @ [f]) fs)"
      by simp
    moreover have "\<forall>g\<in>set (cur @ [f]). \<bar>y g - y ref\<bar> \<le> tolerance"
      using Cons.prems(1) False by auto
    ultimately show ?thesis by (intro Cons.IH [of "cur @ [f]" ref])
  qed
qed

lemma spec_lines_within:
  assumes "l \<in> set (spec_lines tolerance fs)"
  shows "\<forall>f\<in>set (tl l). \<bar>y f - y (hd l)\<bar> \<le> tolerance"
proof (cases fs)
  case Nil
  with assms show ?thesis by simp
next
  case (Cons f fs')
  with assms have "l \<in> set (spec_walk tolerance f [] fs')" by simp
  then show ?thesis by (intro spec_walk_within [of "[]" f]) simp_all
qed

lemma sorted_concat_part:
  "sorted (map k (concat ls)) \<Longrightarrow> l \<in> set ls \<Longrightarrow> sorted (map k l)"
  by (induction ls) (auto simp: sorted_append)

lemma sorted_concat_across:
  "sorted (map k (concat ls)) \<Longrightarrow> i < j \<Longrightarrow> j < length ls \<Longrightarrow>
     a \<in> set (ls ! i) \<Longrightarrow> b \<in> set (ls ! j) \<Longrightarrow> k a \<le> k b"
proof (induction ls arbitrary: i j)
  case Nil
  then show ?case by simp
next
  case (Cons l ls)
  from Cons.prems(2) obtain j' where j: "j = Suc j'" by (cases j) simp_all
  show ?case
  proof (cases i)
    case 0
    have "b \<in> set (concat ls)"
    proof -
      have "ls ! j' \<in> set ls" using Cons.prems(3) j by simp
      moreover have "b \<in> set (ls ! j')" using Cons.prems(5) j by simp
      ultimately show ?thesis by auto
    qed
    then show ?thesis
      using Cons.prems(1,4) 0 by (auto simp: sorted_append)
  next
    case (Suc i')
    have "sorted (map k (concat ls))"
      using Cons.prems(1) by (simp add: sorted_append)
    then show ?thesis
      using Cons.IH [of i' j'] Cons.prems Suc j by simp
  qed
qed

lemma yThenX_le_y: "yThenX a \<le> yThenX b \<Longrightarrow> y a \<le> y b"
  by (auto simp: yThenX_def)

lemma groupIntoLines_scenario_A:
  "groupIntoLines [mk ''Hello'' 10 10, mk ''World'' 60 11] 5
     = Inr [[mk ''Hello'' 10 10, mk ''World'' 60 11]]"
  by (simp add: groupIntoLines_def sortBy_def byYThenX_def byX_def pushItem_def mk_def)

lemma groupIntoLines_scenario_B:
  "groupIntoLines [mk ''A'' 10 10, mk ''B'' 10 50] 5
     = Inr [[mk ''A'' 10 10], [mk ''B'' 10 50]]"
  by (simp add: groupIntoLines_def sortBy_def byYThenX_def byX_def pushItem_def mk_def)

lemma groupIntoLines_sloped:
  "groupIntoLines [mk ''b'' 60 10, mk ''a'' 10 11] 5
     = Inr [[mk ''a'' 10 11, mk ''b'' 60 10]]"
  by (simp add: groupIntoLines_def sortBy_def byYThenX_def byX_def pushItem_def mk_def)

lemma groupIntoLines_two_lines_sample:
  "groupIntoLines [mk ''B'' 10 50, mk ''World'' 60 11, mk ''Hello'' 10 10] 5
     = Inr [[mk ''Hello'' 10 10, mk ''World'' 60 11], [mk ''B'' 10 50]]"
  by (simp add: groupIntoLines_def sortBy_def byYThenX_def byX_def pushItem_def mk_def)

section \<open>Claims about groupIntoLines\<close>

text \<open>
  C1. For every list of fragments and every tolerance, \<open>groupIntoLines\<close> returns (it never
  throws), and what it returns is the walk of the specification over the fragments in
  y-then-x order: a new line starts exactly when the fragment's y differs from the y of
  the first fragment of the line being built by more than the tolerance, and the fragment
  is appended to that line otherwise; the lines come back sorted by x. "Hello" at (10,10)
  and "World" at (60,11) form one line at tolerance 5; "A" at (10,10) and "B" at (10,50)
  form two.
\<close>

theorem groupIntoLines_walks_sorted_fragments:
  "groupIntoLines items tolerance = Inr (spec_groupIntoLines items tolerance)
   \<and> groupIntoLines [mk ''Hello'' 10 10, mk ''World'' 60 11] 5
       = Inr [[mk ''Hello'' 10 10, mk ''World'' 60 11]]
   \<and> groupIntoLines [mk ''A'' 10 10, mk ''B'' 10 50] 5
       = Inr [[mk ''A'' 10 10], [mk ''B'' 10 50]]"
  using groupIntoLines_total [of items tolerance] groupIntoLines_scenario_A
    groupIntoLines_scenario_B
  by blast

text \<open>
  C2, as the claim states it, fails: the lines are sorted by x after the walk, so two
  fragments of one line whose ys differ come back in x order, and the flattened result is
  no longer in y-then-x order. Fragments "b" at (60,10) and "a" at (10,11) share a line
  at tolerance 5 and come back as "a", "b", with ys 11 and 10.
\<close>

theorem groupIntoLines_flattened_not_y_then_x:
  "groupIntoLines [mk ''b'' 60 10, mk ''a'' 10 11] 5
     = Inr [[mk ''a'' 10 11, mk ''b'' 60 10]]
   \<and> \<not> sorted (map yThenX (concat [[mk ''a'' 10 11, mk ''b'' 60 10]]))"
  by (simp add: groupIntoLines_sloped) (simp add: yThenX_def mk_def)

text \<open>
  C2, amended. For every list of fragments and every tolerance, \<open>groupIntoLines\<close> returns
  lines that, flattened, hold exactly the input fragments with their multiplicities;
  each line is sorted by ascending x; every fragment of an earlier line has a y no greater
  than every fragment of a later line; and the flattened lines are the input in
  non-decreasing y-then-x order whenever, of any two input fragments whose ys differ by no
  more than the tolerance, the one with the smaller y has no greater an x.
\<close>

theorem groupIntoLines_partitions_input:
  "\<exists>lines. groupIntoLines items tolerance = Inr lines
     \<and> mset (concat lines) = mset items
     \<and> (\<forall>l\<in>set lines. sorted (map x l))
     \<and> (\<forall>i j. i < j \<and> j < length lines \<longrightarrow>
           (\<forall>a\<in>set (lines ! i). \<forall>b\<in>set (lines ! j). y a \<le> y b))
     \<and> ((\<forall>a\<in>set items. \<forall>b\<in>set items.
             y a < y b \<and> y b - y a \<le> tolerance \<longrightarrow> x a \<le> x b) \<longrightarrow>
           concat lines = sortBy byYThenX items \<and> sorted (map yThenX (concat lines)))"
proof -
  define srt where "srt = sort_key yThenX items"
  define walk where "walk = spec_lines tolerance srt"
  define lines where "lines = map (sort_key x) walk"
  have total: "groupIntoLines items tolerance = Inr lines"
    by (simp add: lines_def walk_def srt_def groupIntoLines_total spec_groupIntoLines_def)
  have flat: "concat walk = srt"
    by (simp add: walk_def concat_spec_lines)
  have srt_sorted: "sorted (map yThenX (concat walk))"
    by (simp add: flat srt_def)
  have "mset (concat lines) = mset (concat walk)"
    by (simp add: lines_def mset_concat comp_def)
  then have perm: "mset (concat lines) = mset items"
    by (simp add: flat srt_def)
  have line_sorted: "\<forall>l\<in>set lines. sorted (map x l)"
    by (auto simp: lines_def)
  have across: "\<forall>i j. i < j \<and> j < length lines \<longrightarrow>
      (\<forall>a\<in>set (lines ! i). \<forall>b\<in>set (lines ! j). y a \<le> y b)"
  proof (intro allI impI ballI)
    fix i j a b
    assume ij: "i < j \<and> j < length lines" and a: "a \<in> set (lines ! i)" and b: "b \<in> set (lines ! j)"
    have "a \<in> set (walk ! i)" "b \<in> set (walk ! j)"
      using ij a b by (simp_all add: lines_def)
    then have "yThenX a \<le> yThenX b"
      using sorted_concat_across [OF srt_sorted, of i j a b] ij by (simp add: lines_def)
    then show "y a \<le> y b" by (rule yThenX_le_y)
  qed
  have aligned: "concat lines = sortBy byYThenX items \<and> sorted (map yThenX (concat lines))"
    if slope: "\<forall>a\<in>set items. \<forall>b\<in>set items.
                 y a < y b \<and> y b - y a \<le> tolerance \<longrightarrow> x a \<le> x b"
  proof -
    have same: "sort_key x l = l" if l: "l \<in> set walk" for l
    proof -
      have sub: "set l \<subseteq> set items"
      proof -
        have "set l \<subseteq> set (concat walk)" using l by auto
        then show ?thesis by (simp add: flat srt_def)
      qed
      have ne: "l \<noteq> []"
        using l spec_lines_nonempty [of tolerance srt] by (auto simp: walk_def)
      have near: "\<forall>f\<in>set (tl l). \<bar>y f - y (hd l)\<bar> \<le> tolerance"
        using l by (intro spec_lines_within [of l tolerance srt]) (simp add: walk_def)
      have l_sorted: "sorted (map yThenX l)"
        using srt_sorted l by (rule sorted_concat_part)
      have head_least: "y (hd l) \<le> y f" if "f \<in> set l" for f
      proof -
        have "yThenX (hd l) \<le> yThenX f"
          using l_sorted that ne by (cases l) auto
        then show ?thesis by (rule yThenX_le_y)
      qed
      have "sorted_wrt (\<lambda>a b. yThenX a \<le> yThenX b) l"
        using l_sorted by (simp add: sorted_map)
      then have "sorted_wrt (\<lambda>a b. x a \<le> x b) l"
      proof (rule sorted_wrt_mono_rel [rotated])
        fix a b
        assume a: "a \<in> set l" and b: "b \<in> set l" and le: "yThenX a \<le> yThenX b"
        show "x a \<le> x b"
        proof (cases "y a < y b")
          case True
          have "y (hd l) \<le> y a" using a by (rule head_least)
          with True have "b \<noteq> hd l" by auto
          with b ne have "b \<in> set (tl l)" by (cases l) auto
          with near have "\<bar>y b - y (hd l)\<bar> \<le> tolerance" by blast
          with \<open>y (hd l) \<le> y a\<close> have "y b - y a \<le> tolerance" by simp
          moreover have "a \<in> set items" "b \<in> set items"
            using a b sub by auto
          ultimately show ?thesis
            using True slope by blast
        next
          case False
          with le show ?thesis by (auto simp: yThenX_def)
        qed
      qed
      then have "sorted (map x l)" by (simp add: sorted_map)
      then show ?thesis by (rule sort_key_id_if_sorted)
    qed
    have "lines = walk"
      unfolding lines_def by (rule map_idI) (rule same)
    then show ?thesis
      using srt_sorted flat by (simp add: srt_def sortBy_byYThenX)
  qed
  show ?thesis
    using total perm line_sorted across aligned by blast
qed

theorem groupIntoLines_partitions_input_witness:
  "groupIntoLines [mk ''B'' 10 50, mk ''World'' 60 11, mk ''Hello'' 10 10] 5
     = Inr [[mk ''Hello'' 10 10, mk ''World'' 60 11], [mk ''B'' 10 50]]
   \<and> mset (concat [[mk ''Hello'' 10 10, mk ''World'' 60 11], [mk ''B'' 10 50]])
       = mset [mk ''B'' 10 50, mk ''World'' 60 11, mk ''Hello'' 10 10]
   \<and> sorted (map x [mk ''Hello'' 10 10, mk ''World'' 60 11])
   \<and> y (mk ''World'' 60 11) \<le> y (mk ''B'' 10 50)
   \<and> concat [[mk ''Hello'' 10 10, mk ''World'' 60 11], [mk ''B'' 10 50]]
       = sortBy byYThenX [mk ''B'' 10 50, mk ''World'' 60 11, mk ''Hello'' 10 10]
   \<and> sorted (map yThenX (concat [[mk ''Hello'' 10 10, mk ''World'' 60 11], [mk ''B'' 10 50]]))"
proof -
  let ?items = "[mk ''B'' 10 50, mk ''World'' 60 11, mk ''Hello'' 10 10]"
  let ?out = "[[mk ''Hello'' 10 10, mk ''World'' 60 11], [mk ''B'' 10 50]]"
  have slope: "\<forall>a\<in>set ?items. \<forall>b\<in>set ?items. y a < y b \<and> y b - y a \<le> 5 \<longrightarrow> x a \<le> x b"
    by (simp add: mk_def)
  obtain lines where run: "groupIntoLines ?items 5 = Inr lines"
    and perm: "mset (concat lines) = mset ?items"
    and srt: "\<forall>l\<in>set lines. sorted (map x l)"
    and across: "\<forall>i j. i < j \<and> j < length lines \<longrightarrow>
           (\<forall>a\<in>set (lines ! i). \<forall>b\<in>set (lines ! j). y a \<le> y b)"
    and aligned: "(\<forall>a\<in>set ?items. \<forall>b\<in>set ?items.
             y a < y b \<and> y b - y a \<le> 5 \<longrightarrow> x a \<le> x b) \<longrightarrow>
           concat lines = sortBy byYThenX ?items \<and> sorted (map yThenX (concat lines))"
    using groupIntoLines_partitions_input [of ?items 5] by (elim exE conjE)
  have lines: "lines = ?out"
    using run by (simp add: groupIntoLines_two_lines_sample)
  have over: "y (mk ''World'' 60 11) \<le> y (mk ''B'' 10 50)"
    using across [rule_format, of 0 1 "mk ''World'' 60 11" "mk ''B'' 10 50"] by (simp add: lines)
  have inline: "sorted (map x [mk ''Hello'' 10 10, mk ''World'' 60 11])"
    using srt by (simp add: lines)
  have "concat lines = sortBy byYThenX ?items \<and> sorted (map yThenX (concat lines))"
    using aligned slope by (rule mp)
  then have flat: "concat ?out = sortBy byYThenX ?items \<and> sorted (map yThenX (concat ?out))"
    unfolding lines .
  show ?thesis
  proof (intro conjI)
    show "groupIntoLines ?items 5 = Inr ?out" using run by (simp only: lines)
    show "mset (concat ?out) = mset ?items" using perm by (simp only: lines)
    show "sorted (map x [mk ''Hello'' 10 10, mk ''World'' 60 11])" by (rule inline)
    show "y (mk ''World'' 60 11) \<le> y (mk ''B'' 10 50)" by (rule over)
    show "concat ?out = sortBy byYThenX ?items" using flat by (rule conjunct1)
    show "sorted (map yThenX (concat ?out))" using flat by (rule conjunct2)
  qed
qed

section \<open>Column detection lemmas\<close>

lemma sortBy_byNumber: "sortBy byNumber vs = sort vs"
  by (rule sortBy_sort_key) (simp add: byNumber_def)

lemma newSet_fold:
  "set (foldl (\<lambda>seen v. if v \<in> set seen then seen else seen @ [v]) acc vs) = set acc \<union> set vs
   \<and> (distinct acc \<longrightarrow>
        distinct (foldl (\<lambda>seen v. if v \<in> set seen then seen else seen @ [v]) acc vs))"
  by (induction vs arbitrary: acc) auto

lemma set_newSet: "set (newSet vs) = set vs"
  using newSet_fold [of "[]" vs] by (simp add: newSet_def)

lemma distinct_newSet: "distinct (newSet vs)"
  using newSet_fold [of "[]" vs] by (simp add: newSet_def)

lemma sort_newSet: "sort (newSet vs) = sorted_list_of_set (set vs)"
proof (rule sorted_distinct_set_unique)
  show "set (sort (newSet vs)) = set (sorted_list_of_set (set vs))"
    by (simp add: set_newSet)
qed (simp_all add: distinct_newSet)

lemma foldl_pushCol:
  "cols \<noteq> [] \<Longrightarrow> foldl pushCol cols vs = cols @ spec_accept (last cols) vs"
  by (induction vs arbitrary: cols) (simp_all add: pushCol_def)

lemma foldl_pushCol_start:
  "foldl pushCol [] vs = (case vs of [] \<Rightarrow> [] | v # ws \<Rightarrow> v # spec_accept v ws)"
  by (cases vs) (simp_all add: pushCol_def foldl_pushCol)

lemma set_xPositions: "set (concat (map (map x) lines)) = xsOf lines"
  by (auto simp: xsOf_def)

lemma detectColumns_spec: "detectColumns lines = spec_columns (xsOf lines)"
proof -
  have "sortBy byNumber (newSet (concat (map (map x) lines))) = sorted_list_of_set (xsOf lines)"
    by (simp only: sortBy_byNumber sort_newSet set_xPositions)
  then show ?thesis
    by (simp add: detectColumns_def spec_columns_def foldl_pushCol_start)
qed

lemma finite_xsOf: "finite (xsOf lines)"
  by (simp add: xsOf_def)

lemma set_spec_accept: "set (spec_accept c vs) \<subseteq> set vs"
  by (induction vs arbitrary: c) auto

lemma set_spec_columns: "finite X \<Longrightarrow> set (spec_columns X) \<subseteq> X"
proof -
  assume fin: "finite X"
  show ?thesis
  proof (cases "sorted_list_of_set X")
    case Nil
    then show ?thesis by (simp add: spec_columns_def)
  next
    case (Cons v vs)
    have "set (v # vs) = X" using fin Cons by (metis set_sorted_list_of_set)
    then show ?thesis
      using Cons set_spec_accept [of v vs] by (auto simp: spec_columns_def)
  qed
qed

lemma successively_spec_accept:
  "successively (\<lambda>a b. 20 < b - a) (c # spec_accept c vs)"
  by (induction vs arbitrary: c) simp_all

lemma successively_spec_columns: "successively (\<lambda>a b. 20 < b - a) (spec_columns X)"
  by (cases "sorted_list_of_set X") (simp_all add: spec_columns_def successively_spec_accept)

lemma apart_transp: "transp (\<lambda>a b :: int. 20 < b - a)"
  by (rule transpI) simp

lemma successively_apart_sorted:
  assumes "successively (\<lambda>a b :: int. 20 < b - a) cs"
  shows "sorted_wrt (<) cs"
proof -
  have "sorted_wrt (\<lambda>a b :: int. 20 < b - a) cs"
    using assms by (simp add: successively_conv_sorted_wrt [OF apart_transp])
  then show ?thesis
    by (rule sorted_wrt_mono_rel [rotated]) simp
qed

lemma spec_accept_apart:
  "successively (\<lambda>a b. 20 < b - a) (c # vs) \<Longrightarrow> spec_accept c vs = vs"
  by (induction vs arbitrary: c) (simp_all add: successively_Cons)

lemma spec_columns_apart:
  assumes "successively (\<lambda>a b. 20 < b - a) cs"
  shows "spec_columns (set cs) = cs"
proof -
  have "sorted_wrt (<) cs" using assms by (rule successively_apart_sorted)
  then have "sorted_list_of_set (set cs) = cs"
    by (simp add: sorted_list_of_set.idem_if_sorted_distinct strict_sorted_iff)
  then show ?thesis
    using assms by (cases cs) (simp_all add: spec_columns_def spec_accept_apart)
qed

lemma spec_columns_Nil_iff: "finite X \<Longrightarrow> spec_columns X = [] \<longleftrightarrow> X = {}"
  by (cases "sorted_list_of_set X")
     (auto simp: spec_columns_def dest: arg_cong [where f = set])

lemma detectColumns_scenario_C:
  "detectColumns [[mk ''a'' 10 0, mk ''b'' 15 0, mk ''c'' 80 0, mk ''d'' 83 0]] = [10, 80]"
  by (simp add: detectColumns_def mk_def newSet_def sortBy_def byNumber_def pushCol_def)

section \<open>Claims about detectColumns\<close>

text \<open>
  C3. For every page, \<open>detectColumns\<close> is the walk of the specification over the distinct
  x positions of all the lines in ascending order: a candidate is accepted as a new column
  exactly when it lies more than 20 units to the right of the most recently accepted
  column. Every column is one of the x positions as it was found, never an average. For
  the x positions 10, 15, 80 and 83 the columns are 10 and 80.
\<close>

theorem detectColumns_clusters_sorted_xs:
  "detectColumns lines = spec_columns (xsOf lines)
   \<and> set (detectColumns lines) \<subseteq> xsOf lines
   \<and> detectColumns [[mk ''a'' 10 0, mk ''b'' 15 0, mk ''c'' 80 0, mk ''d'' 83 0]] = [10, 80]"
proof -
  have "set (spec_columns (xsOf lines)) \<subseteq> xsOf lines"
    by (rule set_spec_columns) (rule finite_xsOf)
  then show ?thesis
    using detectColumns_spec [of lines] detectColumns_scenario_C by simp
qed

text \<open>
  C7. For every input, the columns returned by \<open>detectColumns\<close> are strictly increasing and
  any two adjacent columns differ by more than 20 units.
\<close>

theorem detectColumns_columns_apart:
  "sorted_wrt (<) (detectColumns lines)
   \<and> successively (\<lambda>a b. 20 < b - a) (detectColumns lines)"
proof -
  have "successively (\<lambda>a b. 20 < b - a) (detectColumns lines)"
    by (simp add: detectColumns_spec successively_spec_columns)
  then show ?thesis
    using successively_apart_sorted by blast
qed

text \<open>
  C8. Column detection is idempotent: on any lines whose set of x positions is the column
  list that \<open>detectColumns\<close> returned, in whatever order those positions occur,
  \<open>detectColumns\<close> returns that same column list again.
\<close>

theorem detectColumns_idempotent:
  assumes "xsOf again = set (detectColumns lines)"
  shows "detectColumns again = detectColumns lines"
proof -
  have "successively (\<lambda>a b. 20 < b - a) (detectColumns lines)"
    by (simp add: detectColumns_spec successively_spec_columns)
  then have "spec_columns (set (detectColumns lines)) = detectColumns lines"
    by (rule spec_columns_apart)
  then show ?thesis
    using assms by (simp add: detectColumns_spec [of again])
qed

theorem detectColumns_idempotent_witness:
  "xsOf [[mk ''c'' 80 0], [mk ''a'' 10 0]]
     = set (detectColumns [[mk ''a'' 10 0, mk ''b'' 15 0, mk ''c'' 80 0, mk ''d'' 83 0]])
   \<and> detectColumns [[mk ''c'' 80 0], [mk ''a'' 10 0]]
     = detectColumns [[mk ''a'' 10 0, mk ''b'' 15 0, mk ''c'' 80 0, mk ''d'' 83 0]]"
proof -
  have same: "xsOf [[mk ''c'' 80 0], [mk ''a'' 10 0]]
     = set (detectColumns [[mk ''a'' 10 0, mk ''b'' 15 0, mk ''c'' 80 0, mk ''d'' 83 0]])"
  proof -
    have "xsOf [[mk ''c'' 80 0], [mk ''a'' 10 0]] = set [10, 80]"
      by (auto simp: xsOf_def mk_def)
    then show ?thesis
      by (simp only: detectColumns_scenario_C)
  qed
  show ?thesis
    using same detectColumns_idempotent [OF same] by simp
qed

section \<open>Nearest column lemmas\<close>

lemma nearer_scan:
  assumes "n \<le> length cols" and "0 < n"
  shows "\<exists>b. foldl (nearer v cols) (0, None) [0..<n] = (b, Some \<bar>v - cols ! b\<bar>)
           \<and> b < n
           \<and> (\<forall>j<n. \<bar>v - cols ! b\<bar> \<le> \<bar>v - cols ! j\<bar>)
           \<and> (\<forall>j<b. \<bar>v - cols ! b\<bar> < \<bar>v - cols ! j\<bar>)"
  using assms
proof (induction n)
  case 0
  then show ?case by simp
next
  case (Suc n)
  show ?case
  proof (cases "n = 0")
    case True
    then show ?thesis by (simp add: nearer_def closer_def)
  next
    case False
    then obtain b where run: "foldl (nearer v cols) (0, None) [0..<n] = (b, Some \<bar>v - cols ! b\<bar>)"
      and b: "b < n"
      and least: "\<forall>j<n. \<bar>v - cols ! b\<bar> \<le> \<bar>v - cols ! j\<bar>"
      and first: "\<forall>j<b. \<bar>v - cols ! b\<bar> < \<bar>v - cols ! j\<bar>"
      using Suc by auto
    show ?thesis
    proof (cases "\<bar>v - cols ! n\<bar> < \<bar>v - cols ! b\<bar>")
      case True
      then have "foldl (nearer v cols) (0, None) [0..<Suc n] = (n, Some \<bar>v - cols ! n\<bar>)"
        using run by (simp add: nearer_def closer_def)
      moreover have "\<forall>j<Suc n. \<bar>v - cols ! n\<bar> \<le> \<bar>v - cols ! j\<bar>"
        using True least by (auto simp: less_Suc_eq)
      moreover have "\<forall>j<n. \<bar>v - cols ! n\<bar> < \<bar>v - cols ! j\<bar>"
        using True least by (meson less_le_trans)
      ultimately show ?thesis by auto
    next
      case False
      then have "foldl (nearer v cols) (0, None) [0..<Suc n] = (b, Some \<bar>v - cols ! b\<bar>)"
        using run by (simp add: nearer_def closer_def)
      moreover have "\<forall>j<Suc n. \<bar>v - cols ! b\<bar> \<le> \<bar>v - cols ! j\<bar>"
        using False least by (auto simp: less_Suc_eq)
      ultimately show ?thesis using b first by auto
    qed
  qed
qed

lemma assignCol_nearest:
  assumes "cols \<noteq> []"
  shows "assignCol v cols < length cols"
    and "j < length cols \<Longrightarrow> \<bar>v - cols ! assignCol v cols\<bar> \<le> \<bar>v - cols ! j\<bar>"
    and "j < assignCol v cols \<Longrightarrow> \<bar>v - cols ! assignCol v cols\<bar> < \<bar>v - cols ! j\<bar>"
proof -
  obtain b where run: "foldl (nearer v cols) (0, None) [0..<length cols] = (b, Some \<bar>v - cols ! b\<bar>)"
    and b: "b < length cols"
    and least: "\<forall>j<length cols. \<bar>v - cols ! b\<bar> \<le> \<bar>v - cols ! j\<bar>"
    and first: "\<forall>j<b. \<bar>v - cols ! b\<bar> < \<bar>v - cols ! j\<bar>"
    using nearer_scan [of "length cols" cols v] assms by auto
  have eq: "assignCol v cols = b" by (simp add: assignCol_def run)
  show "assignCol v cols < length cols" using b eq by simp
  show "j < length cols \<Longrightarrow> \<bar>v - cols ! assignCol v cols\<bar> \<le> \<bar>v - cols ! j\<bar>"
    using least eq by simp
  show "j < assignCol v cols \<Longrightarrow> \<bar>v - cols ! assignCol v cols\<bar> < \<bar>v - cols ! j\<bar>"
    using first eq by simp
qed

lemma assignCol_Nil: "assignCol v [] = 0"
  by (simp add: assignCol_def)

section \<open>Row and grid lemmas\<close>

lemma setCell_inside: "col < length row \<Longrightarrow> setCell row col v = row[col := v]"
  by (simp add: setCell_def)

lemma length_putItem:
  assumes "cols \<noteq> []" and "length row = length cols"
  shows "length (putItem cols row item) = length cols"
  using assms assignCol_nearest(1) [of cols "x item"]
  by (simp add: putItem_def Let_def setCell_inside)

lemma length_foldl_putItem:
  assumes "cols \<noteq> []" and "length row = length cols"
  shows "length (foldl (putItem cols) row line) = length cols"
  using assms by (induction line arbitrary: row) (simp_all add: length_putItem)

lemma length_buildRow: "cols \<noteq> [] \<Longrightarrow> length (buildRow cols line) = length cols"
  by (simp add: buildRow_def length_foldl_putItem)

lemma join_glue: "join sep ((a @ sep @ s) # ss) = a @ sep @ join sep (s # ss)"
  by (cases ss) simp_all

lemma putItem_nth:
  assumes "cols \<noteq> []" and "length row = length cols" and "c < length cols"
  shows "putItem cols row item ! c =
           (if assignCol (x item) cols = c
            then (if row ! c \<noteq> [] then row ! c @ '' '' @ str item else str item)
            else row ! c)"
  using assms assignCol_nearest(1) [of cols "x item"]
  by (simp add: putItem_def Let_def setCell_inside)

lemma foldl_putItem_nth:
  assumes "cols \<noteq> []" and "length row = length cols" and "c < length cols"
    and "\<forall>i\<in>set line. str i \<noteq> []"
  shows "foldl (putItem cols) row line ! c =
           (if row ! c = []
            then join '' '' (map str (filter (\<lambda>i. assignCol (x i) cols = c) line))
            else join '' '' (row ! c # map str (filter (\<lambda>i. assignCol (x i) cols = c) line)))"
  using assms
proof (induction line arbitrary: row)
  case Nil
  then show ?case by simp
next
  case (Cons i line)
  let ?row = "putItem cols row i"
  have len: "length ?row = length cols"
    using Cons.prems by (simp add: length_putItem)
  have rest: "\<forall>i\<in>set line. str i \<noteq> []" and here: "str i \<noteq> []"
    using Cons.prems by simp_all
  have IH: "foldl (putItem cols) ?row line ! c =
           (if ?row ! c = []
            then join '' '' (map str (filter (\<lambda>i. assignCol (x i) cols = c) line))
            else join '' '' (?row ! c # map str (filter (\<lambda>i. assignCol (x i) cols = c) line)))"
    using Cons.IH [OF Cons.prems(1) len Cons.prems(3) rest] .
  have cell: "?row ! c =
           (if assignCol (x i) cols = c
            then (if row ! c \<noteq> [] then row ! c @ '' '' @ str i else str i)
            else row ! c)"
    using Cons.prems by (simp add: putItem_nth)
  show ?case
  proof (cases "assignCol (x i) cols = c")
    case True
    then show ?thesis
      using IH cell here join_glue [of "'' ''" "row ! c" "str i"] by simp
  next
    case False
    then show ?thesis
      using IH cell by simp
  qed
qed

lemma buildRow_nth:
  assumes "cols \<noteq> []" and "c < length cols" and "\<forall>i\<in>set line. str i \<noteq> []"
  shows "buildRow cols line ! c
           = join '' '' (map str (filter (\<lambda>i. assignCol (x i) cols = c) line))"
  using foldl_putItem_nth [of cols "replicate (length cols) []" c line] assms
  by (simp add: buildRow_def)

lemma foldl_pushRow:
  "foldl (pushRow cols) grid lines
     = grid @ filter (list_ex (\<lambda>c. trim c \<noteq> [])) (map (buildRow cols) lines)"
  by (induction lines arbitrary: grid) (simp_all add: pushRow_def Let_def)

lemma spec_groupIntoLines_Nil_iff: "spec_groupIntoLines items tolerance = [] \<longleftrightarrow> items = []"
proof -
  have "sort_key yThenX items = [] \<longleftrightarrow> items = []"
    by (metis length_sort length_0_conv)
  then show ?thesis
    by (simp add: spec_groupIntoLines_def spec_lines_Nil_iff)
qed

lemma spec_groupIntoLines_nonempty: "[] \<notin> set (spec_groupIntoLines items tolerance)"
proof
  assume "[] \<in> set (spec_groupIntoLines items tolerance)"
  then obtain l where "l \<in> set (spec_lines tolerance (sort_key yThenX items))"
    and "sort_key x l = []"
    by (auto simp: spec_groupIntoLines_def)
  moreover from this have "l = []" by (metis length_sort length_0_conv)
  ultimately show False using spec_lines_nonempty by blast
qed

lemma spec_groupIntoLines_sorted:
  "l \<in> set (spec_groupIntoLines items tolerance) \<Longrightarrow> sorted (map x l)"
  by (auto simp: spec_groupIntoLines_def)

lemma spec_groupIntoLines_subset:
  assumes "l \<in> set (spec_groupIntoLines items tolerance)"
  shows "set l \<subseteq> set items"
proof -
  from assms obtain w where w: "w \<in> set (spec_lines tolerance (sort_key yThenX items))"
    and l: "l = sort_key x w"
    by (auto simp: spec_groupIntoLines_def)
  have "set w \<subseteq> set (concat (spec_lines tolerance (sort_key yThenX items)))"
    using w by auto
  then show ?thesis by (simp add: l concat_spec_lines)
qed

lemma xsOf_nonempty:
  assumes "lines \<noteq> []" and "[] \<notin> set lines"
  shows "xsOf lines \<noteq> {}"
proof -
  have l: "hd lines \<in> set lines" using assms(1) by simp
  then have "hd lines \<noteq> []" using assms(2) by metis
  then have i: "hd (hd lines) \<in> set (hd lines)" by simp
  have "x (hd (hd lines)) \<in> xsOf lines"
    unfolding xsOf_def using l i by blast
  then show ?thesis by blast
qed

lemma detectColumns_nonempty:
  assumes "lines \<noteq> []" and "[] \<notin> set lines"
  shows "detectColumns lines \<noteq> []"
  using xsOf_nonempty [OF assms]
  by (simp add: detectColumns_spec spec_columns_Nil_iff finite_xsOf)

lemma forEach_append:
  assumes "\<And>s a. a \<in> set as \<Longrightarrow> body s a = Inr (s @ g a)"
  shows "forEach body s as = Inr (s @ concat (map g as))"
  using assms by (induction as arbitrary: s) simp_all

lemma concat_map_if:
  "concat (map (\<lambda>p. if P p then [] else [f p]) ps) = map f (filter (\<lambda>p. \<not> P p) ps)"
  by (induction ps) simp_all

lemma excelPage_eq:
  "excelPage pages wb p
     = Inr (wb @ (if pages ! p = [] then []
                  else [sheetOf pages p (spec_groupIntoLines (pages ! p) 8)]))"
  by (simp add: excelPage_def groupIntoLines_total spec_groupIntoLines_Nil_iff)

lemma length_filter_pages:
  "length (filter (\<lambda>p. pages ! p \<noteq> []) [0..<length pages])
     = length (filter (\<lambda>pg. pg \<noteq> []) pages)"
proof -
  have "filter (\<lambda>pg. pg \<noteq> []) pages = filter (\<lambda>pg. pg \<noteq> []) (map ((!) pages) [0..<length pages])"
    by (simp add: map_nth)
  then show ?thesis by (simp add: filter_map comp_def)
qed

lemma no_content_iff:
  "filter (\<lambda>p. pages ! p \<noteq> []) [0..<length pages] = []
     \<longleftrightarrow> filter (\<lambda>pg. pg \<noteq> []) pages = []"
  using length_filter_pages [of pages] by (metis length_0_conv)

lemma convertToExcel_eq:
  "convertToExcel pages
     = (if filter (\<lambda>pg. pg \<noteq> []) pages = [] then Inl WorkbookIsEmpty
        else Inr (map (\<lambda>p. sheetOf pages p (spec_groupIntoLines (pages ! p) 8))
               (filter (\<lambda>p. pages ! p \<noteq> []) [0..<length pages])))"
proof -
  have "forEach (excelPage pages) [] [0..<length pages]
     = Inr ([] @ concat (map (\<lambda>p. if pages ! p = [] then []
                  else [sheetOf pages p (spec_groupIntoLines (pages ! p) 8)]) [0..<length pages]))"
    by (rule forEach_append) (rule excelPage_eq)
  then have "forEach (excelPage pages) [] [0..<length pages]
     = Inr (map (\<lambda>p. sheetOf pages p (spec_groupIntoLines (pages ! p) 8))
               (filter (\<lambda>p. pages ! p \<noteq> []) [0..<length pages]))"
    by (simp add: concat_map_if)
  then show ?thesis
    using no_content_iff [of pages] by (simp add: convertToExcel_def xlsxWrite_def)
qed

lemma rows_sheetOf:
  "rows (sheetOf pages p lines)
     = filter (list_ex (\<lambda>c. trim c \<noteq> [])) (map (buildRow (detectColumns lines)) lines)"
  by (simp add: sheetOf_def Let_def foldl_pushRow)

lemma sheetName_sheetOf:
  "sheetName (sheetOf pages p lines)
     = (if 1 < length pages then ''Page '' @ decimal (p + 1) else ''Sheet1'')"
  by (simp add: sheetOf_def Let_def)

lemma groupIntoLines_Nil_iff: "groupIntoLines items tolerance = Inr [] \<longleftrightarrow> items = []"
  by (simp add: groupIntoLines_total spec_groupIntoLines_Nil_iff)

lemma decimal_small: "n < 10 \<Longrightarrow> decimal n = [''0123456789'' ! n]"
  by (simp add: decimal.simps [of n] digit_def)

lemma convertToExcel_single_page_sample:
  "convertToExcel [[mk ''A'' 10 10]]
     = Inr [\<lparr>sheetName = ''Sheet1'', rows = [[''A'']], colWidths = [10]\<rparr>]"
  by code_simp

lemma convertToExcel_three_page_sample:
  "convertToExcel [[mk ''A'' 10 10], [], [mk ''Z'' 3 3]]
     = Inr [\<lparr>sheetName = ''Page 1'', rows = [[''A'']], colWidths = [10]\<rparr>,
            \<lparr>sheetName = ''Page 3'', rows = [[''Z'']], colWidths = [10]\<rparr>]"
  by code_simp

lemma groupIntoLines_tie_sample:
  "groupIntoLines [mk ''A'' 10 10, mk ''B'' 25 11, mk ''C'' 40 10] 8
     = Inr [[mk ''A'' 10 10, mk ''B'' 25 11, mk ''C'' 40 10]]"
  by (simp add: groupIntoLines_def sortBy_def byYThenX_def byX_def pushItem_def mk_def)

lemma detectColumns_tie_sample:
  "detectColumns [[mk ''A'' 10 10, mk ''B'' 25 11, mk ''C'' 40 10]] = [10, 40]"
  by (simp add: detectColumns_def mk_def newSet_def sortBy_def byNumber_def pushCol_def)

lemma assignCol_tie_sample:
  "assignCol 10 [10, 40] = 0" "assignCol 25 [10, 40] = 0" "assignCol 40 [10, 40] = 1"
  by (simp_all add: assignCol_def nearer_def closer_def upt_rec)

lemma convertToExcel_blank_line_sample:
  "convertToExcel [[mk ''A'' 10 10, mk '' '' 100 40]]
     = Inr [\<lparr>sheetName = ''Sheet1'', rows = [[''A'', '''']], colWidths = [10, 10]\<rparr>]"
  by code_simp

section \<open>Claims about the table conversion\<close>

text \<open>
  C4, as the claim states it, fails: the name depends on the number of pages of the
  document, not on the number of pages with content. A document of two pages whose second
  page has no fragments has exactly one page with content, and its one sheet is named
  "Page 1".
\<close>

theorem convertToExcel_one_page_with_content_of_two:
  "convertToExcel [[mk ''A'' 10 10], []]
     = Inr [\<lparr>sheetName = ''Page 1'', rows = [[''A'']], colWidths = [10]\<rparr>]
   \<and> groupIntoLines [mk ''A'' 10 10] 8 = Inr [[mk ''A'' 10 10]]
   \<and> groupIntoLines [] 8 = Inr []"
  by code_simp

text \<open>
  C4, amended. A document none of whose pages has content gives no sheet, and the table
  conversion fails with the writer's error. Otherwise it returns one sheet for every page
  that has fragments (a page yields zero lines exactly when it has no fragments) and none
  for the other pages. If the document has exactly one page and that page has content, the
  one sheet is named "Sheet1". If the document has more than one page, the sheets are named
  "Page N" with N the 1-based index of the page in the document, in page order, so the
  pages that were passed over leave gaps in the numbering: a document of three pages
  whose page 2 yields zero lines gives the sheets "Page 1" and "Page 3".
\<close>

theorem convertToExcel_sheet_names:
  "(filter (\<lambda>pg. pg \<noteq> []) pages = [] \<longrightarrow> convertToExcel pages = Inl WorkbookIsEmpty)
   \<and> (filter (\<lambda>pg. pg \<noteq> []) pages \<noteq> [] \<longrightarrow>
        (\<exists>sheets. convertToExcel pages = Inr sheets
           \<and> length sheets = length (filter (\<lambda>pg. pg \<noteq> []) pages)
           \<and> (length pages = 1 \<and> pages ! 0 \<noteq> [] \<longrightarrow> map sheetName sheets = [''Sheet1''])
           \<and> (1 < length pages \<longrightarrow>
                map sheetName sheets
                  = map (\<lambda>p. ''Page '' @ decimal (p + 1))
                      (filter (\<lambda>p. pages ! p \<noteq> []) [0..<length pages]))
           \<and> (pages = [p1, [], p3] \<and> p1 \<noteq> [] \<and> p3 \<noteq> [] \<longrightarrow>
                map sheetName sheets = [''Page 1'', ''Page 3''])))
   \<and> (groupIntoLines (pages ! q) 8 = Inr []) = (pages ! q = [])"
proof -
  define sheets where "sheets = map (\<lambda>p. sheetOf pages p (spec_groupIntoLines (pages ! p) 8))
             (filter (\<lambda>p. pages ! p \<noteq> []) [0..<length pages])"
  have fails: "convertToExcel pages = Inl WorkbookIsEmpty"
    if "filter (\<lambda>pg. pg \<noteq> []) pages = []"
    using that by (simp add: convertToExcel_eq)
  have run: "convertToExcel pages = Inr sheets"
    if "filter (\<lambda>pg. pg \<noteq> []) pages \<noteq> []"
    using that by (simp add: sheets_def convertToExcel_eq)
  have count: "length sheets = length (filter (\<lambda>pg. pg \<noteq> []) pages)"
    by (simp add: sheets_def length_filter_pages)
  have names: "map sheetName sheets
      = map (\<lambda>p. if 1 < length pages then ''Page '' @ decimal (p + 1) else ''Sheet1'')
          (filter (\<lambda>p. pages ! p \<noteq> []) [0..<length pages])"
    by (simp add: sheets_def sheetName_sheetOf comp_def)
  have single: "map sheetName sheets = [''Sheet1'']" if "length pages = 1 \<and> pages ! 0 \<noteq> []"
    using that names by simp
  have multi: "map sheetName sheets
            = map (\<lambda>p. ''Page '' @ decimal (p + 1)) (filter (\<lambda>p. pages ! p \<noteq> []) [0..<length pages])"
    if "1 < length pages"
    using that names by simp
  have three: "map sheetName sheets = [''Page 1'', ''Page 3'']"
    if "pages = [p1, [], p3] \<and> p1 \<noteq> [] \<and> p3 \<noteq> []"
  proof -
    have "[0..<length pages] = [0, 1, 2]"
      using that by (simp add: upt_conv_Cons)
    then have kept: "filter (\<lambda>p. pages ! p \<noteq> []) [0..<length pages] = [0, 2]"
      using that by simp
    have "1 < length pages"
      using that by simp
    then have "map sheetName sheets = map (\<lambda>p. ''Page '' @ decimal (p + 1)) [0, 2]"
      using multi by (simp only: kept)
    then have "map sheetName sheets = [''Page '' @ decimal (0 + 1), ''Page '' @ decimal (2 + 1)]"
      by (simp only: list.map)
    moreover have "decimal (0 + 1) = ''1''" "decimal (2 + 1) = ''3''"
      by (simp_all add: decimal_small)
    ultimately show ?thesis
      by simp
  qed
  show ?thesis
  proof (intro conjI impI)
    show "convertToExcel pages = Inl WorkbookIsEmpty"
      if "filter (\<lambda>pg. pg \<noteq> []) pages = []"
      using that by (rule fails)
    show "\<exists>sheets. convertToExcel pages = Inr sheets
           \<and> length sheets = length (filter (\<lambda>pg. pg \<noteq> []) pages)
           \<and> (length pages = 1 \<and> pages ! 0 \<noteq> [] \<longrightarrow> map sheetName sheets = [''Sheet1''])
           \<and> (1 < length pages \<longrightarrow>
                map sheetName sheets
                  = map (\<lambda>p. ''Page '' @ decimal (p + 1))
                      (filter (\<lambda>p. pages ! p \<noteq> []) [0..<length pages]))
           \<and> (pages = [p1, [], p3] \<and> p1 \<noteq> [] \<and> p3 \<noteq> [] \<longrightarrow>
                map sheetName sheets = [''Page 1'', ''Page 3''])"
      if some: "filter (\<lambda>pg. pg \<noteq> []) pages \<noteq> []"
    proof (rule exI [of _ sheets], intro conjI impI)
      show "convertToExcel pages = Inr sheets" using some by (rule run)
      show "length sheets = length (filter (\<lambda>pg. pg \<noteq> []) pages)" by (rule count)
      show "map sheetName sheets = [''Sheet1'']" if "length pages = 1 \<and> pages ! 0 \<noteq> []"
        using that by (rule single)
      show "map sheetName sheets
              = map (\<lambda>p. ''Page '' @ decimal (p + 1)) (filter (\<lambda>p. pages ! p \<noteq> []) [0..<length pages])"
        if "1 < length pages"
        using that by (rule multi)
      show "map sheetName sheets = [''Page 1'', ''Page 3'']"
        if "pages = [p1, [], p3] \<and> p1 \<noteq> [] \<and> p3 \<noteq> []"
        using that by (rule three)
    qed
    show "(groupIntoLines (pages ! q) 8 = Inr []) = (pages ! q = [])"
      by (rule groupIntoLines_Nil_iff)
  qed
qed

theorem convertToExcel_sheet_names_witness:
  "convertToExcel [[mk ''A'' 10 10]]
     = Inr [\<lparr>sheetName = ''Sheet1'', rows = [[''A'']], colWidths = [10]\<rparr>]
   \<and> map sheetName [\<lparr>sheetName = ''Sheet1'', rows = [[''A'']], colWidths = [10]\<rparr>]
       = [''Sheet1'']
   \<and> convertToExcel [[mk ''A'' 10 10], [], [mk ''Z'' 3 3]]
     = Inr [\<lparr>sheetName = ''Page 1'', rows = [[''A'']], colWidths = [10]\<rparr>,
            \<lparr>sheetName = ''Page 3'', rows = [[''Z'']], colWidths = [10]\<rparr>]
   \<and> map sheetName [\<lparr>sheetName = ''Page 1'', rows = [[''A'']], colWidths = [10]\<rparr>,
            \<lparr>sheetName = ''Page 3'', rows = [[''Z'']], colWidths = [10]\<rparr>]
       = [''Page 1'', ''Page 3'']
   \<and> convertToExcel [[], []] = Inl WorkbookIsEmpty"
proof -
  have "map sheetName [\<lparr>sheetName = ''Sheet1'', rows = [[''A'']], colWidths = [10]\<rparr>]
       = [''Sheet1'']"
    using convertToExcel_sheet_names [of "[[mk ''A'' 10 10]]"]
    by (simp add: convertToExcel_single_page_sample)
  moreover have "map sheetName [\<lparr>sheetName = ''Page 1'', rows = [[''A'']], colWidths = [10]\<rparr>,
            \<lparr>sheetName = ''Page 3'', rows = [[''Z'']], colWidths = [10]\<rparr>]
       = [''Page 1'', ''Page 3'']"
    using convertToExcel_sheet_names
      [of "[[mk ''A'' 10 10], [], [mk ''Z'' 3 3]]" "[mk ''A'' 10 10]" "[mk ''Z'' 3 3]"]
    by (simp add: convertToExcel_three_page_sample)
  moreover have "convertToExcel [[], []] = Inl WorkbookIsEmpty"
    using convertToExcel_sheet_names [of "[[], []]"] by simp
  ultimately show ?thesis
    by (simp add: convertToExcel_single_page_sample convertToExcel_three_page_sample)
qed

text \<open>
  C5. During grid construction every fragment of a line goes to a column of the page whose
  x is nearest to the fragment's x: no column is nearer, and every column to the left of
  the chosen one is strictly further away, so on a tie the leftmost column wins. The cell
  of a column holds the texts of the fragments of the line assigned to that column, in the
  order of the line, which is ascending x, joined by single spaces. Fragments carry a
  non-empty text, as the extraction guarantees.
\<close>

theorem cells_hold_nearest_fragments:
  assumes "groupIntoLines items tolerance = Inr lines"
    and "line \<in> set lines"
    and "\<forall>i\<in>set items. str i \<noteq> []"
    and "cols = detectColumns lines"
  shows "(\<forall>i\<in>set line.
            assignCol (x i) cols < length cols
            \<and> (\<forall>j<length cols. \<bar>x i - cols ! assignCol (x i) cols\<bar> \<le> \<bar>x i - cols ! j\<bar>)
            \<and> (\<forall>j<assignCol (x i) cols. \<bar>x i - cols ! assignCol (x i) cols\<bar> < \<bar>x i - cols ! j\<bar>))
       \<and> (\<forall>c<length cols.
            buildRow cols line ! c
              = join '' '' (map str (filter (\<lambda>i. assignCol (x i) cols = c) line))
            \<and> sorted (map x (filter (\<lambda>i. assignCol (x i) cols = c) line)))"
proof -
  have lines: "lines = spec_groupIntoLines items tolerance"
    using assms(1) by (simp add: groupIntoLines_total)
  have "lines \<noteq> []" using assms(2) by auto
  moreover have "[] \<notin> set lines"
    by (simp add: lines spec_groupIntoLines_nonempty)
  ultimately have cols: "cols \<noteq> []"
    by (simp add: assms(4) detectColumns_nonempty)
  have "set line \<subseteq> set items"
    using assms(2) lines spec_groupIntoLines_subset by blast
  then have strs: "\<forall>i\<in>set line. str i \<noteq> []"
    using assms(3) by blast
  have srt: "sorted (map x line)"
    using assms(2) lines spec_groupIntoLines_sorted by blast
  have nearest: "\<forall>i\<in>set line.
            assignCol (x i) cols < length cols
            \<and> (\<forall>j<length cols. \<bar>x i - cols ! assignCol (x i) cols\<bar> \<le> \<bar>x i - cols ! j\<bar>)
            \<and> (\<forall>j<assignCol (x i) cols. \<bar>x i - cols ! assignCol (x i) cols\<bar> < \<bar>x i - cols ! j\<bar>)"
    using assignCol_nearest [OF cols] by blast
  have cells: "\<forall>c<length cols.
            buildRow cols line ! c
              = join '' '' (map str (filter (\<lambda>i. assignCol (x i) cols = c) line))
            \<and> sorted (map x (filter (\<lambda>i. assignCol (x i) cols = c) line))"
    using buildRow_nth [OF cols _ strs] srt by (simp add: sorted_filter)
  show ?thesis
    using nearest cells by blast
qed

theorem cells_hold_nearest_fragments_witness:
  "groupIntoLines [mk ''A'' 10 10, mk ''B'' 25 11, mk ''C'' 40 10] 8
     = Inr [[mk ''A'' 10 10, mk ''B'' 25 11, mk ''C'' 40 10]]
   \<and> detectColumns [[mk ''A'' 10 10, mk ''B'' 25 11, mk ''C'' 40 10]] = [10, 40]
   \<and> \<bar>25 - [10, 40 :: int] ! 0\<bar> = \<bar>25 - [10, 40] ! 1\<bar>
   \<and> assignCol 25 [10, 40] = 0
   \<and> buildRow [10, 40] [mk ''A'' 10 10, mk ''B'' 25 11, mk ''C'' 40 10] ! 0 = ''A B''
   \<and> buildRow [10, 40] [mk ''A'' 10 10, mk ''B'' 25 11, mk ''C'' 40 10] ! 1 = ''C''"
proof -
  let ?line = "[mk ''A'' 10 10, mk ''B'' 25 11, mk ''C'' 40 10]"
  have strs: "\<forall>i\<in>set ?line. str i \<noteq> []"
    by (simp add: mk_def)
  have cols: "[10, 40] = detectColumns [?line]"
    by (simp only: detectColumns_tie_sample)
  have cells: "\<forall>c<length [10, 40 :: int].
      buildRow [10, 40] ?line ! c
        = join '' '' (map str (filter (\<lambda>i. assignCol (x i) [10, 40] = c) ?line))"
    using cells_hold_nearest_fragments [OF groupIntoLines_tie_sample _ strs cols, of ?line]
    by simp
  have "buildRow [10, 40] ?line ! 0 = ''A B''"
    using cells [rule_format, of 0] by (simp add: mk_def assignCol_tie_sample)
  moreover have "buildRow [10, 40] ?line ! 1 = ''C''"
    using cells [rule_format, of 1] by (simp add: mk_def assignCol_tie_sample)
  ultimately show ?thesis
    using groupIntoLines_tie_sample detectColumns_tie_sample assignCol_tie_sample(2) by simp
qed

text \<open>
  C6. No grid that the table conversion produces has a row whose cells are all empty after
  trimming: whenever the conversion returns sheets, every row of every sheet has a cell
  that is not empty after trimming. It returns sheets exactly when some page of the
  document has a fragment.
\<close>

theorem grid_rows_never_blank:
  "(convertToExcel pages = Inr sheets \<longrightarrow>
      (\<forall>sheet\<in>set sheets. \<forall>row\<in>set (rows sheet). \<not> (\<forall>c\<in>set row. trim c = [])))
   \<and> ((\<exists>wb. convertToExcel pages = Inr wb) = (filter (\<lambda>pg. pg \<noteq> []) pages \<noteq> []))"
proof (intro conjI impI)
  assume run: "convertToExcel pages = Inr sheets"
  then have sheets: "sheets = map (\<lambda>p. sheetOf pages p (spec_groupIntoLines (pages ! p) 8))
             (filter (\<lambda>p. pages ! p \<noteq> []) [0..<length pages])"
    by (simp add: convertToExcel_eq split: if_splits)
  have "\<not> (\<forall>c\<in>set row. trim c = [])" if "sheet \<in> set sheets" "row \<in> set (rows sheet)" for sheet row
  proof -
    from that(1) obtain p where "sheet = sheetOf pages p (spec_groupIntoLines (pages ! p) 8)"
      by (auto simp: sheets)
    with that(2) have "list_ex (\<lambda>c. trim c \<noteq> []) row"
      by (simp add: rows_sheetOf)
    then show ?thesis by (simp add: list_ex_iff)
  qed
  then show "\<forall>sheet\<in>set sheets. \<forall>row\<in>set (rows sheet). \<not> (\<forall>c\<in>set row. trim c = [])"
    by blast
next
  show "(\<exists>wb. convertToExcel pages = Inr wb) = (filter (\<lambda>pg. pg \<noteq> []) pages \<noteq> [])"
    by (simp add: convertToExcel_eq)
qed

theorem grid_rows_never_blank_witness:
  "convertToExcel [[mk ''A'' 10 10, mk '' '' 100 40]]
     = Inr [\<lparr>sheetName = ''Sheet1'', rows = [[''A'', '''']], colWidths = [10, 10]\<rparr>]
   \<and> \<not> (\<forall>c\<in>set [''A'', '''']. trim c = [])"
  using grid_rows_never_blank
    [of "[[mk ''A'' 10 10, mk '' '' 100 40]]"
        "[\<lparr>sheetName = ''Sheet1'', rows = [[''A'', '''']], colWidths = [10, 10]\<rparr>]"]
  by (simp add: convertToExcel_blank_line_sample)

text \<open>
  C10. In the table conversion every cell write is in bounds. For a page whose grouped
  lines are not empty, every line is non-empty and \<open>detectColumns\<close> returns at least one
  column; \<open>assignCol\<close> then returns an index below the number of columns for every
  fragment; every write leaves the length of a row of that many cells as it is, so the row
  is never extended. The index \<open>assignCol\<close> returns is out of range only for the empty
  column list.
\<close>

theorem table_cell_writes_in_bounds:
  assumes "groupIntoLines items tolerance = Inr lines" and "lines \<noteq> []"
  shows "detectColumns lines \<noteq> []
     \<and> (\<forall>line\<in>set lines.
          line \<noteq> []
          \<and> length (buildRow (detectColumns lines) line) = length (detectColumns lines)
          \<and> (\<forall>item\<in>set line.
                assignCol (x item) (detectColumns lines) < length (detectColumns lines)))
     \<and> (\<forall>row item. length row = length (detectColumns lines) \<longrightarrow>
          length (putItem (detectColumns lines) row item) = length row)
     \<and> (\<forall>v cols. length cols \<le> assignCol v cols \<longrightarrow> cols = [])"
proof -
  have lines: "lines = spec_groupIntoLines items tolerance"
    using assms(1) by (simp add: groupIntoLines_total)
  have ne: "[] \<notin> set lines"
    by (simp add: lines spec_groupIntoLines_nonempty)
  have cols: "detectColumns lines \<noteq> []"
    using assms(2) ne by (rule detectColumns_nonempty)
  have per_line: "\<forall>line\<in>set lines.
          line \<noteq> []
          \<and> length (buildRow (detectColumns lines) line) = length (detectColumns lines)
          \<and> (\<forall>item\<in>set line.
                assignCol (x item) (detectColumns lines) < length (detectColumns lines))"
    using ne cols assignCol_nearest(1) [OF cols] by (auto simp: length_buildRow)
  have per_write: "\<forall>row item. length row = length (detectColumns lines) \<longrightarrow>
          length (putItem (detectColumns lines) row item) = length row"
    using cols by (simp add: length_putItem)
  have only_empty: "\<forall>v cols. length cols \<le> assignCol v cols \<longrightarrow> cols = []"
    using assignCol_nearest(1) by (metis not_le)
  show ?thesis
    using cols per_line per_write only_empty by blast
qed

theorem table_cell_writes_in_bounds_witness:
  "groupIntoLines [mk ''A'' 10 10, mk ''B'' 25 11, mk ''C'' 40 10] 8
     = Inr [[mk ''A'' 10 10, mk ''B'' 25 11, mk ''C'' 40 10]]
   \<and> detectColumns [[mk ''A'' 10 10, mk ''B'' 25 11, mk ''C'' 40 10]] \<noteq> []
   \<and> length (buildRow [10, 40] [mk ''A'' 10 10, mk ''B'' 25 11, mk ''C'' 40 10]) = 2
   \<and> assignCol 25 [10, 40] < 2
   \<and> length [] \<le> assignCol 25 []"
  using table_cell_writes_in_bounds [OF groupIntoLines_tie_sample]
  by (simp add: groupIntoLines_tie_sample detectColumns_tie_sample assignCol_tie_sample
      assignCol_Nil)

section \<open>Flow conversion lemmas\<close>

lemma pushLine_append: "pushLine (doc @ extra) line = doc @ pushLine extra line"
  by (simp add: pushLine_def Let_def)

lemma foldl_pushLine: "foldl pushLine doc lines = doc @ foldl pushLine [] lines"
proof (induction lines rule: rev_induct)
  case Nil
  then show ?case by simp
next
  case (snoc line lines)
  have "foldl pushLine doc (lines @ [line]) = pushLine (doc @ foldl pushLine [] lines) line"
    using snoc by simp
  then show ?case
    by (simp add: pushLine_append)
qed

lemma foldl_pushLine_runs:
  "b \<in> set (foldl pushLine [] lines) \<Longrightarrow> \<exists>t bold sz. b = Run t bold sz"
proof (induction lines arbitrary: b rule: rev_induct)
  case Nil
  then show ?case by simp
next
  case (snoc line lines)
  then show ?case
    by (auto simp: pushLine_def Let_def split: if_splits)
qed

lemma wordPage_eq:
  "wordPage pages doc p
     = Inr (doc @ ((if 1 < length pages then [Heading (''Page '' @ decimal (p + 1)) HEADING_2] else [])
              @ foldl pushLine [] (spec_groupIntoLines (pages ! p) 5)
              @ (if p + 1 < length pages then [PageBreak] else [])))"
proof -
  have split: "foldl pushLine (doc @ extra) lines = doc @ extra @ foldl pushLine [] lines" for extra lines
    using foldl_pushLine [of "doc @ extra" lines] by simp
  have last: "(int p < int (length pages) - 1) = (p + 1 < length pages)"
    by auto
  show ?thesis
    using split [of "[]"] by (simp add: wordPage_def Let_def groupIntoLines_total split last)
qed

lemma convertToWord_layout:
  "convertToWord fileName pages
     = Inr (Heading (replaceFirst ''.pdf'' [] fileName) HEADING_1 #
            concat (map (\<lambda>p.
              (if 1 < length pages then [Heading (''Page '' @ decimal (p + 1)) HEADING_2] else [])
              @ foldl pushLine [] (spec_groupIntoLines (pages ! p) 5)
              @ (if p + 1 < length pages then [PageBreak] else [])) [0..<length pages]))"
proof -
  have "convertToWord fileName pages
     = Inr ([Heading (replaceFirst ''.pdf'' [] fileName) HEADING_1] @
            concat (map (\<lambda>p.
              (if 1 < length pages then [Heading (''Page '' @ decimal (p + 1)) HEADING_2] else [])
              @ foldl pushLine [] (spec_groupIntoLines (pages ! p) 5)
              @ (if p + 1 < length pages then [PageBreak] else [])) [0..<length pages]))"
    unfolding convertToWord_def by (rule forEach_append) (rule wordPage_eq)
  then show ?thesis by simp
qed

lemma replaceFirst_suffix_only:
  "replaceFirst ''.pdf'' [] ''report.pdf'' = ''report''"
  by simp

text \<open>
  C9. The flow output starts with one title block at heading level 1; with more than one
  page every page gets its "Page N" heading at level 2, and a page break stands between
  consecutive pages and not after the last. The title is
  not the file name with its extension stripped, though: the first occurrence of ".pdf"
  is removed, wherever it stands. For the file name "report.pdf.final.pdf" the title is
  "report.final.pdf", and for "Report.PDF" it is "Report.PDF".
\<close>

theorem convertToWord_title_keeps_extension:
  "convertToWord ''report.pdf.final.pdf'' [[mk ''A'' 10 10]]
     = Inr [Heading ''report.final.pdf'' HEADING_1, Run ''A'' True 24]
   \<and> convertToWord ''Report.PDF'' [[mk ''A'' 10 10]]
     = Inr [Heading ''Report.PDF'' HEADING_1, Run ''A'' True 24]"
  by code_simp

end
